theory Spec2Isabelle
  imports Main "HOL-Library.Char_ord" "HOL-Library.List_Lexorder" "HOL-Library.Product_Lexorder"
begin

section \<open>Saved project list (pkg/config/projects.go)\<close>

text \<open>
  \<^verbatim>\<open>ProjectEntry\<close> of package config. The Go field \<^verbatim>\<open>Enabled *bool\<close> is a pointer
  that may be nil, modelled as \<open>bool option\<close>.
\<close>

record ProjectEntry =
  Name :: string
  Path :: string
  Enabled :: "bool option"

record ProjectsConfig =
  Projects :: "ProjectEntry list"

text \<open>\<^verbatim>\<open>IsEnabled\<close>: a nil pointer means enabled, otherwise the pointed-to value.\<close>

definition IsEnabled :: "ProjectEntry \<Rightarrow> bool" where
  "IsEnabled p = (case Enabled p of None \<Rightarrow> True | Some b \<Rightarrow> b)"

text \<open>
  \<^verbatim>\<open>EnabledPaths\<close>: the range loop over \<^verbatim>\<open>c.Projects\<close> that appends to \<^verbatim>\<open>paths\<close>;
  the second argument is the slice built so far (a nil slice is the empty list).
\<close>

fun EnabledPaths_loop :: "ProjectEntry list \<Rightarrow> string list \<Rightarrow> string list" where
  "EnabledPaths_loop [] paths = paths"
| "EnabledPaths_loop (p # ps) paths =
     EnabledPaths_loop ps (if IsEnabled p then paths @ [Path p] else paths)"

definition EnabledPaths :: "ProjectsConfig \<Rightarrow> string list" where
  "EnabledPaths c = EnabledPaths_loop (Projects c) []"

subsection \<open>The file system as the config service sees it\<close>

text \<open>
  The errors that \<^verbatim>\<open>os.ReadFile\<close> and \<^verbatim>\<open>os.Remove\<close> give in this model, by their errno.
  \<^verbatim>\<open>os.IsNotExist\<close> holds of \<open>ENOENT\<close> only: not of \<open>ENOTDIR\<close>, \<open>ENAMETOOLONG\<close> or
  \<open>EINVAL\<close>, and not of a nil error.
\<close>

datatype os_error =
  ENOENT | ENOTDIR | EISDIR | EACCES | ENAMETOOLONG | EINVAL | ENOTEMPTY | EBUSY

definition IsNotExist :: "os_error option \<Rightarrow> bool" where
  "IsNotExist err = (err = Some ENOENT)"

text \<open>
  A file system of regular files and directories, keyed by the list of names from the
  root. A file carries whether the process may read it and its bytes; a directory
  carries whether the process may search and change it. The root always exists.
  The calls behave as on Linux; symbolic links, devices, mount points and I/O failures
  are outside the model.
\<close>

datatype node = File bool string | Dir bool

record filesystem =
  entries :: "(string list \<times> node) list"
  cwd :: "string list"

definition node_at :: "filesystem \<Rightarrow> string list \<Rightarrow> node option" where
  "node_at fs loc = (if loc = [] then Some (Dir True) else map_of (entries fs) loc)"

text \<open>The names of a path: the pieces between its slashes, empty ones included.\<close>

fun split_path :: "string \<Rightarrow> string list" where
  "split_path [] = [[]]"
| "split_path (c # cs) =
     (if c = CHR ''/'' then [] # split_path cs
      else (case split_path cs of
              [] \<Rightarrow> [[c]]
            | w # ws \<Rightarrow> (c # w) # ws))"

text \<open>
  Path resolution as Linux does it, one name at a time: the place reached so far must
  be a directory that may be searched, and the name at most 255 bytes; an empty name
  or \<^verbatim>\<open>.\<close> stays there, \<^verbatim>\<open>..\<close> goes up, any other name goes down (whether or not
  something is there).
\<close>

fun walk :: "filesystem \<Rightarrow> string list \<Rightarrow> string list \<Rightarrow> os_error + string list" where
  "walk fs loc [] = Inr loc"
| "walk fs loc (name # names) =
     (case node_at fs loc of
        None \<Rightarrow> Inl ENOENT
      | Some (File readable data) \<Rightarrow> Inl ENOTDIR
      | Some (Dir allowed) \<Rightarrow>
          if \<not> allowed then Inl EACCES
          else if length name > 255 then Inl ENAMETOOLONG
          else if name = [] \<or> name = ''.'' then walk fs loc names
          else if name = ''..'' then walk fs (butlast loc) names
          else walk fs (loc @ [name]) names)"

text \<open>
  The place a path names: \<open>EINVAL\<close> for a NUL byte (Go refuses the string), \<open>ENOENT\<close>
  for the empty path, \<open>ENAMETOOLONG\<close> from 4096 bytes on; an absolute path starts at
  the root, any other at the working directory.
\<close>

definition resolve :: "filesystem \<Rightarrow> string \<Rightarrow> os_error + string list" where
  "resolve fs path =
     (if CHR 0x00 \<in> set path then Inl EINVAL
      else if path = [] then Inl ENOENT
      else if length path \<ge> 4096 then Inl ENAMETOOLONG
      else walk fs (if hd path = CHR ''/'' then [] else cwd fs) (split_path path))"

text \<open>\<^verbatim>\<open>os.ReadFile\<close>: open the file and read all of it.\<close>

definition ReadFile :: "filesystem \<Rightarrow> string \<Rightarrow> os_error + string" where
  "ReadFile fs path =
     (case resolve fs path of
        Inl e \<Rightarrow> Inl e
      | Inr loc \<Rightarrow>
          (case node_at fs loc of
             None \<Rightarrow> Inl ENOENT
           | Some (Dir allowed) \<Rightarrow> Inl EISDIR
           | Some (File readable data) \<Rightarrow> if readable then Inr data else Inl EACCES))"






text \<open>
  The process environment: \<^verbatim>\<open>XDG_CONFIG_HOME\<close> (empty when unset), the user's home
  directory, and \<^verbatim>\<open>filepath.Join\<close>, which belongs to the Go library and is taken as it is.
\<close>

record environment =
  XDG_CONFIG_HOME :: string
  UserHomeDir :: string
  Join :: "string list \<Rightarrow> string"

definition ProjectsFileName :: string where
  "ProjectsFileName = ''projects.yaml''"

definition DefaultConfigDir :: "environment \<Rightarrow> string" where
  "DefaultConfigDir env =
     (if XDG_CONFIG_HOME env \<noteq> '''' then Join env [XDG_CONFIG_HOME env, ''bv'']
      else Join env [UserHomeDir env, ''.config'', ''bv''])"

definition ProjectsConfigPath :: "environment \<Rightarrow> string" where
  "ProjectsConfigPath env = Join env [DefaultConfigDir env, ProjectsFileName]"

text \<open>
  \<^verbatim>\<open>LoadProjectsFrom\<close> returns \<^verbatim>\<open>(*ProjectsConfig, error)\<close>, exactly one of them non-nil.
  \<^verbatim>\<open>yaml.Unmarshal\<close> is the YAML library's: a parameter that gives a config or an error
  message.
\<close>

datatype load_error = OsError os_error | YamlError string

definition LoadProjectsFrom ::
  "(string \<Rightarrow> string + ProjectsConfig) \<Rightarrow> filesystem \<Rightarrow> string \<Rightarrow> load_error + ProjectsConfig" where
  "LoadProjectsFrom unmarshal fs path =
     (case ReadFile fs path of
        Inl err \<Rightarrow>
          (if IsNotExist (Some err) then Inr \<lparr>Projects = []\<rparr> else Inl (OsError err))
      | Inr data \<Rightarrow>
          (case unmarshal data of
             Inl msg \<Rightarrow> Inl (YamlError msg)
           | Inr config \<Rightarrow> Inr config))"

definition LoadProjects ::
  "(string \<Rightarrow> string + ProjectsConfig) \<Rightarrow> environment \<Rightarrow> filesystem \<Rightarrow> load_error + ProjectsConfig" where
  "LoadProjects unmarshal env fs = LoadProjectsFrom unmarshal fs (ProjectsConfigPath env)"


section \<open>Project manager overlay (package ui)\<close>

text \<open>
  The overlay's \<^verbatim>\<open>ProjectEntry\<close> (a second struct of that name, in package ui) and the
  fields of \<^verbatim>\<open>ProjectManagerModel\<close> that its list operations read or write. The text
  input, the theme, the size and the error message play no part in them. Go's \<^verbatim>\<open>int\<close>
  is modelled as \<open>int\<close>: the index only moves by one between 0 and the length of the
  slice, so it never wraps.
\<close>

record UiProjectEntry =
  EntryName :: string
  EntryPath :: string
  EntryPrefix :: string
  IssueCount :: int
  IsActive :: bool

record ProjectManagerModel =
  projects :: "UiProjectEntry list"
  selectedIndex :: int
  addMode :: bool

definition NewProjectManagerModel :: ProjectManagerModel where
  "NewProjectManagerModel = \<lparr>projects = [], selectedIndex = 0, addMode = False\<rparr>"

definition SetProjects :: "UiProjectEntry list \<Rightarrow> ProjectManagerModel \<Rightarrow> ProjectManagerModel" where
  "SetProjects ps m =
     (let m1 = m\<lparr>projects := ps\<rparr>;
          m2 = (if selectedIndex m1 \<ge> int (length ps)
                then m1\<lparr>selectedIndex := int (length ps) - 1\<rparr> else m1)
      in if selectedIndex m2 < 0 then m2\<lparr>selectedIndex := 0\<rparr> else m2)"

definition MoveUp :: "ProjectManagerModel \<Rightarrow> ProjectManagerModel" where
  "MoveUp m =
     (if addMode m then m
      else if selectedIndex m > 0 then m\<lparr>selectedIndex := selectedIndex m - 1\<rparr>
      else m)"

definition MoveDown :: "ProjectManagerModel \<Rightarrow> ProjectManagerModel" where
  "MoveDown m =
     (if addMode m then m
      else if selectedIndex m < int (length (projects m)) - 1
           then m\<lparr>selectedIndex := selectedIndex m + 1\<rparr>
      else m)"

definition ToggleActive :: "ProjectManagerModel \<Rightarrow> ProjectManagerModel" where
  "ToggleActive m =
     (if addMode m \<or> length (projects m) = 0 then m
      else if selectedIndex m \<ge> 0 \<and> selectedIndex m < int (length (projects m))
           then m\<lparr>projects := (projects m)
                  [nat (selectedIndex m) :=
                     (projects m ! nat (selectedIndex m))
                       \<lparr>IsActive := \<not> IsActive (projects m ! nat (selectedIndex m))\<rparr>]\<rparr>
      else m)"

text \<open>
  \<^verbatim>\<open>EnterAddMode\<close> and \<^verbatim>\<open>ExitAddMode\<close> also reset the text input and the error message,
  which are not among the modelled fields.
\<close>

definition EnterAddMode :: "ProjectManagerModel \<Rightarrow> ProjectManagerModel" where
  "EnterAddMode m = m\<lparr>addMode := True\<rparr>"

definition ExitAddMode :: "ProjectManagerModel \<Rightarrow> ProjectManagerModel" where
  "ExitAddMode m = m\<lparr>addMode := False\<rparr>"

text \<open>\<^verbatim>\<open>SelectedProject\<close>: None is the nil pointer.\<close>

definition SelectedProject :: "ProjectManagerModel \<Rightarrow> UiProjectEntry option" where
  "SelectedProject m =
     (if length (projects m) = 0 \<or> selectedIndex m < 0
         \<or> selectedIndex m \<ge> int (length (projects m))
      then None
      else Some (projects m ! nat (selectedIndex m)))"

text \<open>
  \<^verbatim>\<open>RemoveSelected\<close> returns the removed entry (None is nil) and the model it leaves;
  \<^verbatim>\<open>append(s[:i], s[i+1:]...)\<close> is the slice without its element at \<open>i\<close>.
\<close>

definition RemoveSelected :: "ProjectManagerModel \<Rightarrow> UiProjectEntry option \<times> ProjectManagerModel" where
  "RemoveSelected m =
     (if length (projects m) = 0 \<or> selectedIndex m < 0
         \<or> selectedIndex m \<ge> int (length (projects m))
      then (None, m)
      else
        let removed = projects m ! nat (selectedIndex m);
            m1 = m\<lparr>projects := take (nat (selectedIndex m)) (projects m)
                                @ drop (nat (selectedIndex m) + 1) (projects m)\<rparr>;
            m2 = (if selectedIndex m1 \<ge> int (length (projects m1)) \<and> selectedIndex m1 > 0
                  then m1\<lparr>selectedIndex := selectedIndex m1 - 1\<rparr> else m1)
        in (Some removed, m2))"

definition AddProject :: "UiProjectEntry \<Rightarrow> ProjectManagerModel \<Rightarrow> ProjectManagerModel" where
  "AddProject entry m = m\<lparr>projects := projects m @ [entry]\<rparr>"

text \<open>
  A caller's sequence of calls on one model. Entering and leaving add mode are included
  so that the early returns of \<^verbatim>\<open>MoveUp\<close>, \<^verbatim>\<open>MoveDown\<close> and \<^verbatim>\<open>ToggleActive\<close> are reached.
\<close>

datatype pm_call =
    CallSetProjects "UiProjectEntry list"
  | CallMoveUp
  | CallMoveDown
  | CallToggleActive
  | CallAddProject UiProjectEntry
  | CallRemoveSelected
  | CallEnterAddMode
  | CallExitAddMode

fun pm_step :: "ProjectManagerModel \<Rightarrow> pm_call \<Rightarrow> ProjectManagerModel" where
  "pm_step m (CallSetProjects ps) = SetProjects ps m"
| "pm_step m CallMoveUp = MoveUp m"
| "pm_step m CallMoveDown = MoveDown m"
| "pm_step m CallToggleActive = ToggleActive m"
| "pm_step m (CallAddProject entry) = AddProject entry m"
| "pm_step m CallRemoveSelected = snd (RemoveSelected m)"
| "pm_step m CallEnterAddMode = EnterAddMode m"
| "pm_step m CallExitAddMode = ExitAddMode m"

definition pm_run :: "pm_call list \<Rightarrow> ProjectManagerModel" where
  "pm_run calls = foldl pm_step NewProjectManagerModel calls"

text \<open>The invariant the calls keep: the index is 0 on an empty list and inside it otherwise.\<close>

definition pm_inv :: "ProjectManagerModel \<Rightarrow> bool" where
  "pm_inv m =
     (if projects m = [] then selectedIndex m = 0
      else 0 \<le> selectedIndex m \<and> selectedIndex m < int (length (projects m)))"

section \<open>The core's data model\<close>

text \<open>
  Modelled from the spec: the issue status enumeration (open, in_progress, blocked,
  closed, ...) of the data model; the package that declares it is not among the sources.
  A value outside the vocabulary is kept as it is.
\<close>

datatype Status = Open | InProgress | Blocked | Closed | OtherStatus string

text \<open>
  Modelled from the spec: the dependency-edge kinds (blocks, related, ...), declared in
  the same missing package.
\<close>

datatype DepKind = Blocks | Related | OtherKind string

text \<open>
  Modelled from the spec: the issue types (task, bug, feature, epic, ...), declared in
  the same missing package.
\<close>

datatype IssueType = Task | Bug | Feature | Epic | OtherType string

text \<open>
  Modelled from the spec: \<^verbatim>\<open>DependencyEdge{DependsOnID, Kind}\<close> of the data model, whose
  declaration is missing.
\<close>

record DependencyEdge =
  DependsOnID :: string
  Kind :: DepKind

text \<open>
  Modelled from the spec: the Issue value object of the data model, whose declaration is
  missing.
\<close>

record Issue =
  ID :: string
  Title :: string
  Status :: Status
  Priority :: int
  IssueType :: IssueType
  Dependencies :: "DependencyEdge list"

text \<open>
  Modelled from the spec: the Project of the data model (name, path, prefix, enabled,
  issues), whose declaration is missing. The name is the last component of the path,
  that is, the project's directory name.
\<close>

record Project =
  ProjName :: string
  ProjPath :: string
  Prefix :: string
  ProjEnabled :: bool
  Issues :: "Issue list"

section \<open>Namespace Resolver\<close>

text \<open>
  Modelled from the spec: the decimal digit that renders a number below ten, for the
  suffixes \<^verbatim>\<open>_1\<close>, \<^verbatim>\<open>_2\<close>, ... of the missing Namespace Resolver.
\<close>

definition digit_char :: "nat \<Rightarrow> char" where
  "digit_char d = ''0123456789'' ! d"

text \<open>
  Modelled from the spec: the decimal rendering of the collision count \<open>k\<close> in
  \<^verbatim>\<open>base_k\<close>, for the missing Namespace Resolver.
\<close>

function itoa :: "nat \<Rightarrow> string" where
  "itoa n = (if n < 10 then [digit_char n] else itoa (n div 10) @ [digit_char (n mod 10)])"
  by pat_completeness auto
termination
  by (relation "measure id") auto

declare itoa.simps [simp del]

text \<open>
  Modelled from the spec: the base token of a project, the lowercase of its directory
  name (section 4.1; the Namespace Resolver is missing). The lowercase mapping itself
  is the string library's and is taken as the parameter \<open>lower\<close>.
\<close>

definition base_of :: "(string \<Rightarrow> string) \<Rightarrow> Project \<Rightarrow> string" where
  "base_of lower p = lower (ProjName p)"

text \<open>
  Modelled from the spec: a lookup in the NamespaceRegistry, which maps a base name to
  the count of its prior uses; a name never used has count 0.
\<close>

definition uses_of :: "(string \<rightharpoonup> nat) \<Rightarrow> string \<Rightarrow> nat" where
  "uses_of registry base = (case registry base of None \<Rightarrow> 0 | Some k \<Rightarrow> k)"

text \<open>
  Modelled from the spec: the prefix for a base token used \<open>k\<close> times already (section
  4.1): the base token itself when \<open>k = 0\<close>, and \<^verbatim>\<open>base_k\<close> otherwise.
\<close>

definition make_prefix :: "string \<Rightarrow> nat \<Rightarrow> string" where
  "make_prefix base k = (if k = 0 then base else base @ ''_'' @ itoa k)"

text \<open>
  Modelled from the spec: the Namespace Resolver's pass over the projects in load
  order (section 4.1), threading the registry; the resolver is missing from the sources.
\<close>

fun assign_loop ::
  "(string \<Rightarrow> string) \<Rightarrow> (string \<rightharpoonup> nat) \<Rightarrow> Project list \<Rightarrow> Project list" where
  "assign_loop lower registry [] = []"
| "assign_loop lower registry (p # ps) =
     (let base = base_of lower p;
          k = uses_of registry base
      in p\<lparr>Prefix := make_prefix base k\<rparr> # assign_loop lower (registry(base \<mapsto> Suc k)) ps)"

text \<open>
  Modelled from the spec: the Namespace Resolver (section 4.1) on the ordered list of
  enabled projects, starting from an empty registry.
\<close>

definition AssignPrefixes :: "(string \<Rightarrow> string) \<Rightarrow> Project list \<Rightarrow> Project list" where
  "AssignPrefixes lower ps = assign_loop lower Map.empty ps"

text \<open>
  The number of earlier projects in the list with the same base token as the project at
  position \<open>i\<close>.
\<close>

definition prior_uses :: "string list \<Rightarrow> nat \<Rightarrow> nat" where
  "prior_uses bases i = count_list (take i bases) (bases ! i)"

text \<open>
  No base token of the list is another base token \<open>b\<close> of the list followed by \<^verbatim>\<open>_k\<close>,
  for a count \<open>k\<close> that a later use of \<open>b\<close> in the list is given.
\<close>

definition collision_free :: "string list \<Rightarrow> bool" where
  "collision_free bases =
     (\<forall>b \<in> set bases. \<forall>b' \<in> set bases. \<forall>k \<in> {1..<count_list bases b}.
        b' \<noteq> b @ ''_'' @ itoa k)"

section \<open>Graph Merger: the dependency-ID rewrite\<close>

text \<open>
  Modelled from the spec: stripping a leading string (section 4.2, "stripping a leading
  \<^verbatim>\<open>prefix-\<close>"), for the missing Graph Merger: the rest of the value when it starts with
  the string, nothing otherwise.
\<close>

definition cut_prefix :: "string \<Rightarrow> string \<Rightarrow> string option" where
  "cut_prefix pre s = (if take (length pre) s = pre then Some (drop (length pre) s) else None)"

text \<open>
  Modelled from the spec: whether a raw dependency value matches a known final ID
  (section 4.2): for some loaded project, stripping its prefix and a dash leaves the
  original ID of one of that project's issues. The projects carry their assigned
  prefixes and their issues as loaded, with original IDs.
\<close>

definition known_final :: "Project list \<Rightarrow> string \<Rightarrow> bool" where
  "known_final ps raw =
     list_ex (\<lambda>q. case cut_prefix (Prefix q @ ''-'') raw of
                    None \<Rightarrow> False
                  | Some rest \<Rightarrow> rest \<in> set (map ID (Issues q))) ps"

text \<open>
  Modelled from the spec: the dependency-ID rewrite rule of the missing Graph Merger
  (section 4.2) for a reference held by an issue of project \<open>p\<close>: a known final ID is
  left unchanged, anything else is taken as a reference within \<open>p\<close>.
\<close>

definition rewrite_dep :: "Project list \<Rightarrow> Project \<Rightarrow> string \<Rightarrow> string" where
  "rewrite_dep ps p raw = (if known_final ps raw then raw else Prefix p @ ''-'' @ raw)"

text \<open>
  Modelled from the spec: the rewrite applied to every dependency edge of an issue of
  project \<open>p\<close> (section 4.2).
\<close>

definition rewrite_edges :: "Project list \<Rightarrow> Project \<Rightarrow> Issue \<Rightarrow> Issue" where
  "rewrite_edges ps p x =
     x\<lparr>Dependencies :=
         map (\<lambda>e. e\<lparr>DependsOnID := rewrite_dep ps p (DependsOnID e)\<rparr>) (Dependencies x)\<rparr>"

section \<open>Layering Engine\<close>

text \<open>
  Modelled from the spec: the MergedUniverse's mapping from final ID to Issue, as an
  association list in load order; the Graph Merger that builds it is missing.
\<close>

type_synonym MergedUniverse = "(string \<times> Issue) list"

text \<open>
  Modelled from the spec: \<^verbatim>\<open>MergedUniverse.Edges\<close>, the adjacency derived from an issue's
  dependencies and restricted to the blocks kind.
\<close>

definition Edges :: "MergedUniverse \<Rightarrow> string \<Rightarrow> string list" where
  "Edges U i =
     (case map_of U i of
        None \<Rightarrow> []
      | Some x \<Rightarrow> map DependsOnID (filter (\<lambda>e. Kind e = Blocks) (Dependencies x)))"

text \<open>
  Modelled from the spec: whether a dependency target is unresolved for planning
  (section 4.3): it is an issue of the universe whose status is not closed. A dangling
  reference counts as satisfied.
\<close>

definition is_open :: "MergedUniverse \<Rightarrow> string \<Rightarrow> bool" where
  "is_open U d = (case map_of U d of None \<Rightarrow> False | Some x \<Rightarrow> Status x \<noteq> Closed)"

text \<open>Modelled from the spec: the open blocking dependencies of an issue (section 4.3).\<close>

definition open_blockers :: "MergedUniverse \<Rightarrow> string \<Rightarrow> string list" where
  "open_blockers U i = filter (is_open U) (Edges U i)"

text \<open>
  Modelled from the spec: one round of the layering (section 4.3): the remaining issues
  all of whose open blocking dependencies have been assigned to earlier layers.
\<close>

definition ready :: "MergedUniverse \<Rightarrow> string list \<Rightarrow> string list" where
  "ready U remaining =
     filter (\<lambda>i. \<forall>d \<in> set (open_blockers U i). d \<notin> set remaining) remaining"

text \<open>Modelled from the spec: the priority of the issue with a given final ID.\<close>

definition priority_of :: "MergedUniverse \<Rightarrow> string \<Rightarrow> int" where
  "priority_of U i = (case map_of U i of None \<Rightarrow> 0 | Some x \<Rightarrow> Priority x)"

text \<open>
  Modelled from the spec: the order within a track (section 4.3): by priority, then by
  final ID, bytewise. The sign convention taken is that a lower number comes first.
\<close>

definition track_of :: "MergedUniverse \<Rightarrow> string list \<Rightarrow> string list" where
  "track_of U ids = sort_key (\<lambda>i. (priority_of U i, i)) ids"

text \<open>Modelled from the spec: the failure of the Layering Engine, naming issue IDs.\<close>

datatype plan_error = CycleError "string list"

text \<open>
  Modelled from the spec: the layering of section 4.3, the repeated removal of the
  issues with no unresolved blocking dependency, one track per round. When a round
  removes nothing, the engine fails with a CycleError. How the reported cycle is
  picked from the residual graph is not fixed by the spec: \<open>report\<close> stands for it.
\<close>

function layers ::
  "(MergedUniverse \<Rightarrow> string list \<Rightarrow> string list) \<Rightarrow> MergedUniverse \<Rightarrow> string list
     \<Rightarrow> plan_error + string list list" where
  "layers report U remaining =
     (if remaining = [] then Inr []
      else if ready U remaining = [] then Inl (CycleError (report U remaining))
      else (case layers report U (filter (\<lambda>i. i \<notin> set (ready U remaining)) remaining) of
              Inl e \<Rightarrow> Inl e
            | Inr tracks \<Rightarrow> Inr (track_of U (ready U remaining) # tracks)))"
  by pat_completeness auto
termination
proof (relation "measure (\<lambda>(report, U, remaining). length remaining)")
  show "wf (measure (\<lambda>(report, U, remaining). length remaining))" by simp
next
  fix report :: "MergedUniverse \<Rightarrow> string list \<Rightarrow> string list"
  fix U :: MergedUniverse and remaining :: "string list"
  assume "ready U remaining \<noteq> []"
  then obtain x where x: "x \<in> set (ready U remaining)" by (cases "ready U remaining") auto
  then have "x \<in> set remaining" by (simp add: ready_def)
  with x have "length (filter (\<lambda>i. i \<notin> set (ready U remaining)) remaining) < length remaining"
    by (intro length_filter_less) simp_all
  then show "((report, U, filter (\<lambda>i. i \<notin> set (ready U remaining)) remaining), report, U, remaining)
      \<in> measure (\<lambda>(report, U, remaining). length remaining)" by simp
qed

declare layers.simps [simp del]

text \<open>
  Modelled from the spec: the Layering Engine (section 4.3) on a merged universe: the
  layering of all its issues. The result is the Plan, its tracks in layer order.
\<close>

definition LayeringEngine ::
  "(MergedUniverse \<Rightarrow> string list \<Rightarrow> string list) \<Rightarrow> MergedUniverse
     \<Rightarrow> plan_error + string list list" where
  "LayeringEngine report U = layers report U (map fst U)"

text \<open>The layer of an issue in a plan: the index of the first track that holds its ID.\<close>

fun layer_of :: "string list list \<Rightarrow> string \<Rightarrow> nat option" where
  "layer_of [] i = None"
| "layer_of (t # ts) i = (if i \<in> set t then Some 0 else map_option Suc (layer_of ts i))"

text \<open>
  The universe of the end-to-end test \<^verbatim>\<open>TestMultiProject_CrossProjectDependencies\<close>
  (Scenario C): project api holds API-1, project web holds WEB-1, which depends on
  \<^verbatim>\<open>api-API-1\<close> with a blocks edge; both are open tasks of priority 1.
\<close>

definition scenario_C :: MergedUniverse where
  "scenario_C =
     [(''api-API-1'',
         \<lparr>ID = ''api-API-1'', Title = ''API Endpoint'', Status = Open, Priority = 1,
          IssueType = Task, Dependencies = []\<rparr>),
      (''web-WEB-1'',
         \<lparr>ID = ''web-WEB-1'', Title = ''Web Dashboard'', Status = Open, Priority = 1,
          IssueType = Task,
          Dependencies = [\<lparr>DependsOnID = ''api-API-1'', Kind = Blocks\<rparr>]\<rparr>)]"

section \<open>The saved project list: enabled entries\<close>

lemma EnabledPaths_loop_eq:
  "EnabledPaths_loop ps paths = paths @ map Path (filter IsEnabled ps)"
  by (induction ps arbitrary: paths) simp_all

lemma filter_not_disabled:
  "filter IsEnabled (filter (\<lambda>p. Enabled p \<noteq> Some False) ps) = filter IsEnabled ps"
proof -
  have "\<And>p. (Enabled p \<noteq> Some False \<and> IsEnabled p) = IsEnabled p"
    by (auto simp: IsEnabled_def)
  then show ?thesis by simp
qed

text \<open>
  C8: \<^verbatim>\<open>IsEnabled\<close> is true of an entry whose \<^verbatim>\<open>Enabled\<close> is nil and is the pointed-to
  value otherwise; \<^verbatim>\<open>EnabledPaths\<close> is exactly the paths of the entries for which
  \<^verbatim>\<open>IsEnabled\<close> holds, in list order; and a config gives the same paths with its
  \<^verbatim>\<open>Enabled=false\<close> entries taken out.
\<close>

theorem enabled_paths_are_enabled_entries:
  "IsEnabled (p\<lparr>Enabled := None\<rparr>) = True
   \<and> IsEnabled (p\<lparr>Enabled := Some b\<rparr>) = b
   \<and> EnabledPaths c = map Path (filter IsEnabled (Projects c))
   \<and> EnabledPaths (c\<lparr>Projects := filter (\<lambda>p. Enabled p \<noteq> Some False) (Projects c)\<rparr>)
       = EnabledPaths c"
proof -
  have "IsEnabled (p\<lparr>Enabled := None\<rparr>) = True" "IsEnabled (p\<lparr>Enabled := Some b\<rparr>) = b"
    by (simp_all add: IsEnabled_def)
  moreover have "EnabledPaths c = map Path (filter IsEnabled (Projects c))"
    by (simp add: EnabledPaths_def EnabledPaths_loop_eq)
  moreover have
    "EnabledPaths (c\<lparr>Projects := filter (\<lambda>p. Enabled p \<noteq> Some False) (Projects c)\<rparr>)
      = EnabledPaths c"
    unfolding EnabledPaths_def EnabledPaths_loop_eq
    using filter_not_disabled [of "Projects c"] by simp
  ultimately show ?thesis by blast
qed

text \<open>
  A saved list with an entry that leaves \<^verbatim>\<open>enabled\<close> out, a disabled entry and an entry
  enabled in so many words: the paths of the first and the third are returned.
\<close>

theorem enabled_paths_are_enabled_entries_witness:
  "EnabledPaths
     \<lparr>Projects =
        [\<lparr>Name = ''api'', Path = ''/work/api'', Enabled = None\<rparr>,
         \<lparr>Name = ''old'', Path = ''/work/old'', Enabled = Some False\<rparr>,
         \<lparr>Name = ''web'', Path = ''/work/web'', Enabled = Some True\<rparr>]\<rparr>
   = [''/work/api'', ''/work/web'']"
  using enabled_paths_are_enabled_entries
    [of "\<lparr>Name = ''old'', Path = ''/work/old'', Enabled = Some False\<rparr>" False
        "\<lparr>Projects =
            [\<lparr>Name = ''api'', Path = ''/work/api'', Enabled = None\<rparr>,
             \<lparr>Name = ''old'', Path = ''/work/old'', Enabled = Some False\<rparr>,
             \<lparr>Name = ''web'', Path = ''/work/web'', Enabled = Some True\<rparr>]\<rparr>"]
  by (simp add: IsEnabled_def)

section \<open>The saved project list: a missing file\<close>







section \<open>The project manager overlay: the selected index\<close>

lemma pm_inv_SetProjects: "pm_inv (SetProjects ps m)"
  by (cases ps) (auto simp: pm_inv_def SetProjects_def Let_def)

lemma pm_inv_MoveUp: "pm_inv m \<Longrightarrow> pm_inv (MoveUp m)"
  by (auto simp: pm_inv_def MoveUp_def split: if_splits)

lemma pm_inv_MoveDown: "pm_inv m \<Longrightarrow> pm_inv (MoveDown m)"
  by (auto simp: pm_inv_def MoveDown_def split: if_splits)

lemma pm_inv_ToggleActive: "pm_inv m \<Longrightarrow> pm_inv (ToggleActive m)"
  by (auto simp: pm_inv_def ToggleActive_def split: if_splits)

lemma pm_inv_AddProject: "pm_inv m \<Longrightarrow> pm_inv (AddProject entry m)"
  by (auto simp: pm_inv_def AddProject_def split: if_splits)

lemma pm_inv_RemoveSelected: "pm_inv m \<Longrightarrow> pm_inv (snd (RemoveSelected m))"
  by (auto simp: pm_inv_def RemoveSelected_def Let_def split: if_splits)

lemma pm_inv_EnterAddMode: "pm_inv m \<Longrightarrow> pm_inv (EnterAddMode m)"
  by (simp add: pm_inv_def EnterAddMode_def)

lemma pm_inv_ExitAddMode: "pm_inv m \<Longrightarrow> pm_inv (ExitAddMode m)"
  by (simp add: pm_inv_def ExitAddMode_def)

lemma pm_inv_step: "pm_inv m \<Longrightarrow> pm_inv (pm_step m c)"
  by (cases c)
    (simp_all add: pm_inv_SetProjects pm_inv_MoveUp pm_inv_MoveDown pm_inv_ToggleActive
      pm_inv_AddProject pm_inv_RemoveSelected pm_inv_EnterAddMode pm_inv_ExitAddMode)

lemma pm_inv_foldl: "pm_inv m \<Longrightarrow> pm_inv (foldl pm_step m cs)"
  by (induction cs arbitrary: m) (simp_all add: pm_inv_step)

lemma pm_inv_run: "pm_inv (pm_run cs)"
  unfolding pm_run_def
  by (rule pm_inv_foldl) (simp add: pm_inv_def NewProjectManagerModel_def)

text \<open>
  C10: from \<^verbatim>\<open>NewProjectManagerModel\<close>, after every sequence of \<^verbatim>\<open>SetProjects\<close>,
  \<^verbatim>\<open>MoveUp\<close>, \<^verbatim>\<open>MoveDown\<close>, \<^verbatim>\<open>ToggleActive\<close>, \<^verbatim>\<open>AddProject\<close> and \<^verbatim>\<open>RemoveSelected\<close>
  calls (in or out of add mode) \<^verbatim>\<open>selectedIndex\<close> is at least 0 and, when the project
  list is not empty, less than its length; so \<^verbatim>\<open>SelectedProject\<close> returns nil exactly
  when the list is empty.
\<close>

theorem selected_index_in_range:
  "0 \<le> selectedIndex (pm_run calls)
   \<and> (projects (pm_run calls) \<noteq> [] \<longrightarrow>
        selectedIndex (pm_run calls) < int (length (projects (pm_run calls))))
   \<and> (SelectedProject (pm_run calls) = None \<longleftrightarrow> projects (pm_run calls) = [])"
  using pm_inv_run [of calls]
  by (auto simp: pm_inv_def SelectedProject_def split: if_splits)

text \<open>
  Two projects are added, the selection moves to the second and removes it: the index
  steps back to 0 and the first project is the selected one.
\<close>

theorem selected_index_in_range_witness:
  "selectedIndex (pm_run
      [CallAddProject \<lparr>EntryName = ''api'', EntryPath = ''/work/api'', EntryPrefix = ''api'',
          IssueCount = 2, IsActive = True\<rparr>,
       CallAddProject \<lparr>EntryName = ''web'', EntryPath = ''/work/web'', EntryPrefix = ''web'',
          IssueCount = 2, IsActive = True\<rparr>,
       CallMoveDown, CallRemoveSelected]) = 0
   \<and> SelectedProject (pm_run
      [CallAddProject \<lparr>EntryName = ''api'', EntryPath = ''/work/api'', EntryPrefix = ''api'',
          IssueCount = 2, IsActive = True\<rparr>,
       CallAddProject \<lparr>EntryName = ''web'', EntryPath = ''/work/web'', EntryPrefix = ''web'',
          IssueCount = 2, IsActive = True\<rparr>,
       CallMoveDown, CallRemoveSelected])
     = Some \<lparr>EntryName = ''api'', EntryPath = ''/work/api'', EntryPrefix = ''api'',
          IssueCount = 2, IsActive = True\<rparr>"
  using selected_index_in_range
    [of "[CallAddProject \<lparr>EntryName = ''api'', EntryPath = ''/work/api'', EntryPrefix = ''api'',
          IssueCount = 2, IsActive = True\<rparr>,
       CallAddProject \<lparr>EntryName = ''web'', EntryPath = ''/work/web'', EntryPrefix = ''web'',
          IssueCount = 2, IsActive = True\<rparr>,
       CallMoveDown, CallRemoveSelected]"]
  by (simp add: pm_run_def NewProjectManagerModel_def AddProject_def MoveDown_def
      RemoveSelected_def SelectedProject_def Let_def)


section \<open>The Namespace Resolver: prefixes\<close>

lemma digit_char_inj: "a < 10 \<Longrightarrow> b < 10 \<Longrightarrow> digit_char a = digit_char b \<Longrightarrow> a = b"
proof -
  assume a: "a < 10" and b: "b < 10" and e: "digit_char a = digit_char b"
  have "distinct ''0123456789''" by simp
  with a b e show ?thesis unfolding digit_char_def by (simp add: nth_eq_iff_index_eq)
qed

lemma digit_char_not_underscore: "d < 10 \<Longrightarrow> digit_char d \<noteq> CHR ''_''"
proof
  assume d: "d < 10" and e: "digit_char d = CHR ''_''"
  from d have "''0123456789'' ! d \<in> set ''0123456789''" by (intro nth_mem) simp
  with e show False by (simp add: digit_char_def)
qed

lemma itoa_not_Nil: "itoa n \<noteq> []"
  by (subst itoa.simps) simp

lemma itoa_no_underscore: "CHR ''_'' \<notin> set (itoa n)"
proof (induction n rule: itoa.induct)
  case (1 n)
  show ?case
  proof (cases "n < 10")
    case True
    then show ?thesis using digit_char_not_underscore [of n] by (subst itoa.simps) auto
  next
    case False
    have "n mod 10 < 10" by simp
    then have "digit_char (n mod 10) \<noteq> CHR ''_''" by (rule digit_char_not_underscore)
    with False 1 show ?thesis by (subst itoa.simps) auto
  qed
qed

lemma itoa_inj: "itoa m = itoa n \<Longrightarrow> m = n"
proof (induction m arbitrary: n rule: itoa.induct)
  case (1 m)
  show ?case
  proof (cases "m < 10")
    case m: True
    show ?thesis
    proof (cases "n < 10")
      case True
      with m 1(2) show ?thesis
        by (subst (asm) itoa.simps, subst (asm) (2) itoa.simps) (simp add: digit_char_inj)
    next
      case False
      with m 1(2) have "[digit_char m] = itoa (n div 10) @ [digit_char (n mod 10)]"
        by (subst (asm) itoa.simps, subst (asm) (2) itoa.simps) simp
      then show ?thesis using itoa_not_Nil [of "n div 10"] by simp
    qed
  next
    case m: False
    show ?thesis
    proof (cases "n < 10")
      case True
      with m 1(2) have "itoa (m div 10) @ [digit_char (m mod 10)] = [digit_char n]"
        by (subst (asm) itoa.simps, subst (asm) (2) itoa.simps) simp
      then show ?thesis using itoa_not_Nil [of "m div 10"] by simp
    next
      case False
      with m 1(2) have
        "itoa (m div 10) @ [digit_char (m mod 10)] = itoa (n div 10) @ [digit_char (n mod 10)]"
        by (subst (asm) itoa.simps, subst (asm) (2) itoa.simps) simp
      then have "itoa (m div 10) = itoa (n div 10)"
        and d: "digit_char (m mod 10) = digit_char (n mod 10)"
        by simp_all
      with m 1(1) have q: "m div 10 = n div 10" by blast
      from d have r: "m mod 10 = n mod 10" by (intro digit_char_inj) simp_all
      from q r show ?thesis by (metis div_mult_mod_eq)
    qed
  qed
qed

text \<open>A string that ends in an underscore and digits splits there in one way only.\<close>

lemma split_last_underscore:
  assumes "CHR ''_'' \<notin> set d1" "CHR ''_'' \<notin> set d2" "a @ ''_'' @ d1 = b @ ''_'' @ d2"
  shows "a = b \<and> d1 = d2"
proof -
  from assms(3) have "rev d1 @ CHR ''_'' # rev a = rev d2 @ CHR ''_'' # rev b"
    by (metis append_Cons append_Nil rev.simps(2) rev_append append_assoc)
  then have "takeWhile (\<lambda>c. c \<noteq> CHR ''_'') (rev d1 @ CHR ''_'' # rev a)
      = takeWhile (\<lambda>c. c \<noteq> CHR ''_'') (rev d2 @ CHR ''_'' # rev b)" by simp
  moreover have "takeWhile (\<lambda>c. c \<noteq> CHR ''_'') (rev d1) = rev d1"
    "takeWhile (\<lambda>c. c \<noteq> CHR ''_'') (rev d2) = rev d2"
    using assms(1,2) by (auto simp: takeWhile_eq_all_conv)
  ultimately have "rev d1 = rev d2" by (simp add: takeWhile_tail)
  then have "d1 = d2" by simp
  with assms(3) show ?thesis by simp
qed

lemma assign_loop_length: "length (assign_loop lower registry ps) = length ps"
  by (induction ps arbitrary: registry) (simp_all add: Let_def)

lemma uses_of_upd:
  "uses_of (registry(b \<mapsto> k)) b' = (if b' = b then k else uses_of registry b')"
  by (simp add: uses_of_def)

text \<open>
  The registry's count for a base token, when the loop reaches position \<open>i\<close>, is its
  count at the start plus the token's occurrences before \<open>i\<close>.
\<close>

lemma assign_loop_nth:
  "i < length ps \<Longrightarrow>
   assign_loop lower registry ps ! i =
     (ps ! i)\<lparr>Prefix := make_prefix (base_of lower (ps ! i))
        (uses_of registry (base_of lower (ps ! i))
          + count_list (take i (map (base_of lower) ps)) (base_of lower (ps ! i)))\<rparr>"
proof (induction ps arbitrary: registry i)
  case Nil
  then show ?case by simp
next
  case (Cons p ps)
  show ?case
  proof (cases i)
    case 0
    then show ?thesis by (simp add: Let_def)
  next
    case (Suc j)
    with Cons.prems have j: "j < length ps" by simp
    let ?r = "registry(base_of lower p \<mapsto> Suc (uses_of registry (base_of lower p)))"
    have "assign_loop lower registry (p # ps) ! i = assign_loop lower ?r ps ! j"
      using Suc by (simp add: Let_def)
    also have "\<dots> = (ps ! j)\<lparr>Prefix := make_prefix (base_of lower (ps ! j))
        (uses_of ?r (base_of lower (ps ! j)) + count_list (take j (map (base_of lower) ps)) (base_of lower (ps ! j)))\<rparr>"
      by (rule Cons.IH [OF j])
    also have "\<dots> = ((p # ps) ! i)\<lparr>Prefix := make_prefix (base_of lower ((p # ps) ! i))
        (uses_of registry (base_of lower ((p # ps) ! i))
          + count_list (take i (map (base_of lower) (p # ps))) (base_of lower ((p # ps) ! i)))\<rparr>"
      using Suc by (simp only: uses_of_upd) simp
    finally show ?thesis .
  qed
qed

lemma AssignPrefixes_length: "length (AssignPrefixes lower ps) = length ps"
  by (simp add: AssignPrefixes_def assign_loop_length)

lemma AssignPrefixes_nth:
  "i < length ps \<Longrightarrow>
   Prefix (AssignPrefixes lower ps ! i) = make_prefix (base_of lower (ps ! i)) (prior_uses (map (base_of lower) ps) i)"
  by (simp add: AssignPrefixes_def assign_loop_nth uses_of_def prior_uses_def)

lemma count_take_less:
  assumes "i < j" "j \<le> length bs"
  shows "count_list (take i bs) (bs ! i) < count_list (take j bs) (bs ! i)"
proof -
  from assms have i: "i < length bs" by simp
  have "take (Suc i) (take j bs) = take (Suc i) bs" using assms by (simp add: min_def)
  then have "take j bs = take (Suc i) bs @ drop (Suc i) (take j bs)"
    by (metis append_take_drop_id)
  then have "count_list (take j bs) (bs ! i) \<ge> count_list (take (Suc i) bs) (bs ! i)"
    by (metis count_list_append le_add1)
  moreover have "count_list (take (Suc i) bs) (bs ! i) = Suc (count_list (take i bs) (bs ! i))"
    using i by (simp add: take_Suc_conv_app_nth)
  ultimately show ?thesis by simp
qed

lemma count_take_le: "count_list (take i bs) b \<le> i"
  by (metis length_take min.cobounded2 count_le_length le_trans)

text \<open>
  Where the resolver of section 4.1 does give distinct prefixes: two positions of a
  collision-free list never get the same prefix.
\<close>

lemma make_prefix_neq:
  assumes cf: "collision_free bs" and ij: "i < j" "j < length bs"
  shows "make_prefix (bs ! i) (prior_uses bs i) \<noteq> make_prefix (bs ! j) (prior_uses bs j)"
proof
  assume eq: "make_prefix (bs ! i) (prior_uses bs i) = make_prefix (bs ! j) (prior_uses bs j)"
  let ?ki = "prior_uses bs i" and ?kj = "prior_uses bs j"
  from ij have mem: "bs ! i \<in> set bs" "bs ! j \<in> set bs" by simp_all
  have ki: "?ki < count_list bs (bs ! i)" and kj: "?kj < count_list bs (bs ! j)"
    using ij count_take_less [of i "length bs" bs] count_take_less [of j "length bs" bs]
    by (simp_all add: prior_uses_def)
  show False
  proof (cases "bs ! i = bs ! j")
    case same: True
    with ij count_take_less [of i j bs] have lt: "?ki < ?kj" by (simp add: prior_uses_def)
    then have jnz: "?kj \<noteq> 0" by simp
    show ?thesis
    proof (cases "?ki = 0")
      case True
      with eq jnz same show ?thesis by (simp add: make_prefix_def)
    next
      case False
      with eq jnz same have "itoa ?ki = itoa ?kj" by (simp add: make_prefix_def)
      then have "?ki = ?kj" by (rule itoa_inj)
      with lt show ?thesis by simp
    qed
  next
    case neq: False
    show ?thesis
    proof (cases "?ki = 0")
      case i0: True
      show ?thesis
      proof (cases "?kj = 0")
        case True
        with i0 eq neq show ?thesis by (simp add: make_prefix_def)
      next
        case False
        with i0 eq have "bs ! i = bs ! j @ ''_'' @ itoa ?kj" by (simp add: make_prefix_def)
        moreover from False kj have "?kj \<in> {1..<count_list bs (bs ! j)}" by simp
        ultimately show ?thesis using cf mem unfolding collision_free_def by blast
      qed
    next
      case inz: False
      show ?thesis
      proof (cases "?kj = 0")
        case True
        with inz eq have "bs ! j = bs ! i @ ''_'' @ itoa ?ki" by (simp add: make_prefix_def)
        moreover from inz ki have "?ki \<in> {1..<count_list bs (bs ! i)}" by simp
        ultimately show ?thesis using cf mem unfolding collision_free_def by blast
      next
        case False
        with inz eq have "bs ! i @ ''_'' @ itoa ?ki = bs ! j @ ''_'' @ itoa ?kj"
          by (simp add: make_prefix_def)
        then have "bs ! i = bs ! j"
          using split_last_underscore [OF itoa_no_underscore itoa_no_underscore] by blast
        with neq show ?thesis by simp
      qed
    qed
  qed
qed

lemma AssignPrefixes_distinct:
  assumes "collision_free (map (base_of lower) ps)"
  shows "distinct (map Prefix (AssignPrefixes lower ps))"
proof -
  have len: "length (AssignPrefixes lower ps) = length ps" by (rule AssignPrefixes_length)
  have "Prefix (AssignPrefixes lower ps ! i) \<noteq> Prefix (AssignPrefixes lower ps ! j)"
    if "i < j" "j < length ps" for i j
    using that make_prefix_neq [OF assms, of i j] by (simp add: AssignPrefixes_nth)
  then have "map Prefix (AssignPrefixes lower ps) ! i \<noteq> map Prefix (AssignPrefixes lower ps) ! j"
    if "i < length ps" "j < length ps" "i \<noteq> j" for i j
    using that len by (cases "i < j") (force simp: not_less le_less)+
  then show ?thesis using len by (simp add: distinct_conv_nth)
qed

lemma AssignPrefixes_names_only:
  assumes "map ProjName ps = map ProjName qs"
  shows "map Prefix (AssignPrefixes lower ps) = map Prefix (AssignPrefixes lower qs)"
proof -
  from assms have len: "length ps = length qs" by (metis length_map)
  from assms have b: "map (base_of lower) ps = map (base_of lower) qs"
  proof -
    have e: "map (base_of lower) xs = map lower (map ProjName xs)" for xs
      by (simp add: base_of_def)
    have "map (base_of lower) ps = map lower (map ProjName ps)" by (rule e)
    also have "\<dots> = map lower (map ProjName qs)" using assms by (rule arg_cong)
    also have "\<dots> = map (base_of lower) qs" by (rule e [symmetric])
    finally show ?thesis .
  qed
  show ?thesis
  proof (rule nth_equalityI)
    show "length (map Prefix (AssignPrefixes lower ps)) = length (map Prefix (AssignPrefixes lower qs))"
      using len by (simp add: AssignPrefixes_length)
  next
    fix i assume "i < length (map Prefix (AssignPrefixes lower ps))"
    then have i: "i < length ps" by (simp add: AssignPrefixes_length)
    with len have i': "i < length qs" by simp
    from b i i' have "base_of lower (ps ! i) = base_of lower (qs ! i)" by (metis nth_map)
    with i i' b show "map Prefix (AssignPrefixes lower ps) ! i = map Prefix (AssignPrefixes lower qs) ! i"
      by (simp add: AssignPrefixes_length AssignPrefixes_nth)
  qed
qed



section \<open>The Graph Merger: rewriting an already-prefixed reference\<close>

lemma cut_prefix_append: "cut_prefix pre (pre @ rest) = Some rest"
  by (simp add: cut_prefix_def)

lemma known_final_intro:
  "q \<in> set ps \<Longrightarrow> x \<in> set (Issues q) \<Longrightarrow> known_final ps (Prefix q @ ''-'' @ ID x)"
proof -
  assume q: "q \<in> set ps" and x: "x \<in> set (Issues q)"
  have "cut_prefix (Prefix q @ ''-'') (Prefix q @ ''-'' @ ID x) = Some (ID x)"
    using cut_prefix_append [of "Prefix q @ ''-''" "ID x"] by simp
  with x have "case cut_prefix (Prefix q @ ''-'') (Prefix q @ ''-'' @ ID x) of
      None \<Rightarrow> False | Some rest \<Rightarrow> rest \<in> set (map ID (Issues q))" by simp
  with q show ?thesis unfolding known_final_def list_ex_iff by blast
qed

lemma rewrite_dep_known: "known_final ps raw \<Longrightarrow> rewrite_dep ps p raw = raw"
  by (simp add: rewrite_dep_def)

text \<open>
  C5: the dependency-ID rewrite leaves every raw value unchanged that already equals a
  known final ID, that is, some loaded project's prefix, a dash and the original ID of
  an issue of that project; so rewriting such a reference a second time is a no-op, and
  an issue whose references all are of this kind is left as it is.
\<close>

theorem rewrite_of_final_id_is_noop:
  "(\<forall>q x. q \<in> set ps \<and> x \<in> set (Issues q) \<longrightarrow>
       rewrite_dep ps p (Prefix q @ ''-'' @ ID x) = Prefix q @ ''-'' @ ID x)
   \<and> (\<forall>q x. q \<in> set ps \<and> x \<in> set (Issues q) \<longrightarrow>
       rewrite_dep ps p (rewrite_dep ps p (Prefix q @ ''-'' @ ID x))
         = rewrite_dep ps p (Prefix q @ ''-'' @ ID x))
   \<and> (\<forall>y. (\<forall>e \<in> set (Dependencies y).
               \<exists>q x. q \<in> set ps \<and> x \<in> set (Issues q) \<and> DependsOnID e = Prefix q @ ''-'' @ ID x)
       \<longrightarrow> rewrite_edges ps p y = y)"
proof (intro conjI allI impI)
  fix q x assume "q \<in> set ps \<and> x \<in> set (Issues q)"
  then have "known_final ps (Prefix q @ ''-'' @ ID x)" using known_final_intro by blast
  then show "rewrite_dep ps p (Prefix q @ ''-'' @ ID x) = Prefix q @ ''-'' @ ID x"
    by (rule rewrite_dep_known)
next
  fix q x assume "q \<in> set ps \<and> x \<in> set (Issues q)"
  then have "known_final ps (Prefix q @ ''-'' @ ID x)" using known_final_intro by blast
  then have "rewrite_dep ps p (Prefix q @ ''-'' @ ID x) = Prefix q @ ''-'' @ ID x"
    by (rule rewrite_dep_known)
  then show "rewrite_dep ps p (rewrite_dep ps p (Prefix q @ ''-'' @ ID x))
      = rewrite_dep ps p (Prefix q @ ''-'' @ ID x)" by simp
next
  fix y :: Issue
  assume a: "\<forall>e \<in> set (Dependencies y).
      \<exists>q x. q \<in> set ps \<and> x \<in> set (Issues q) \<and> DependsOnID e = Prefix q @ ''-'' @ ID x"
  have "e\<lparr>DependsOnID := rewrite_dep ps p (DependsOnID e)\<rparr> = e"
    if "e \<in> set (Dependencies y)" for e :: DependencyEdge
  proof -
    from a that obtain q x where "q \<in> set ps" "x \<in> set (Issues q)"
      "DependsOnID e = Prefix q @ ''-'' @ ID x" by blast
    then have "rewrite_dep ps p (DependsOnID e) = DependsOnID e"
      using known_final_intro [of q ps x] rewrite_dep_known by simp
    then show ?thesis by simp
  qed
  then have "map (\<lambda>e. e\<lparr>DependsOnID := rewrite_dep ps p (DependsOnID e)\<rparr>) (Dependencies y)
      = Dependencies y" by (simp add: map_idI)
  then show "rewrite_edges ps p y = y" by (simp add: rewrite_edges_def)
qed

text \<open>
  Scenario C: project web holds WEB-1, whose blocks edge names \<^verbatim>\<open>api-API-1\<close>, the final ID
  of API-1 of project api; the rewrite keeps the reference and the issue.
\<close>

theorem rewrite_of_final_id_is_noop_witness:
  "rewrite_dep
      [\<lparr>ProjName = ''api'', ProjPath = ''/w/api'', Prefix = ''api'', ProjEnabled = True,
         Issues = [\<lparr>ID = ''API-1'', Title = ''API Endpoint'', Status = Open, Priority = 1,
                    IssueType = Task, Dependencies = []\<rparr>]\<rparr>,
       \<lparr>ProjName = ''web'', ProjPath = ''/w/web'', Prefix = ''web'', ProjEnabled = True,
         Issues = [\<lparr>ID = ''WEB-1'', Title = ''Web Dashboard'', Status = Open, Priority = 1,
                    IssueType = Task,
                    Dependencies = [\<lparr>DependsOnID = ''api-API-1'', Kind = Blocks\<rparr>]\<rparr>]\<rparr>]
      \<lparr>ProjName = ''web'', ProjPath = ''/w/web'', Prefix = ''web'', ProjEnabled = True,
         Issues = [\<lparr>ID = ''WEB-1'', Title = ''Web Dashboard'', Status = Open, Priority = 1,
                    IssueType = Task,
                    Dependencies = [\<lparr>DependsOnID = ''api-API-1'', Kind = Blocks\<rparr>]\<rparr>]\<rparr>
      ''api-API-1'' = ''api-API-1''"
proof -
  let ?api1 = "\<lparr>ID = ''API-1'', Title = ''API Endpoint'', Status = Open, Priority = 1,
                    IssueType = Task, Dependencies = []\<rparr>"
  let ?api = "\<lparr>ProjName = ''api'', ProjPath = ''/w/api'', Prefix = ''api'', ProjEnabled = True,
         Issues = [?api1]\<rparr>"
  let ?web = "\<lparr>ProjName = ''web'', ProjPath = ''/w/web'', Prefix = ''web'', ProjEnabled = True,
         Issues = [\<lparr>ID = ''WEB-1'', Title = ''Web Dashboard'', Status = Open, Priority = 1,
                    IssueType = Task,
                    Dependencies = [\<lparr>DependsOnID = ''api-API-1'', Kind = Blocks\<rparr>]\<rparr>]\<rparr>"
  have "?api \<in> set [?api, ?web] \<and> ?api1 \<in> set (Issues ?api)" by simp
  with rewrite_of_final_id_is_noop [of "[?api, ?web]" ?web, THEN conjunct1, rule_format,
      of ?api ?api1]
  show ?thesis by simp
qed

section \<open>The Layering Engine: layers respect open blocking dependencies\<close>

lemma set_track_of: "set (track_of U ids) = set ids"
  by (simp add: track_of_def)

text \<open>One round of a layering that succeeds: a non-empty first track, then the rest.\<close>

lemma layers_step:
  assumes "layers report U remaining = Inr tracks" "remaining \<noteq> []"
  obtains rest where
    "ready U remaining \<noteq> []"
    "layers report U (filter (\<lambda>i. i \<notin> set (ready U remaining)) remaining) = Inr rest"
    "tracks = track_of U (ready U remaining) # rest"
  using assms by (subst (asm) layers.simps) (auto split: if_splits sum.splits)

lemma layers_Nil: "layers report U [] = Inr tracks \<Longrightarrow> tracks = []"
  by (subst (asm) layers.simps) simp

text \<open>A track holds remaining issues only.\<close>

lemma layers_within:
  "layers report U remaining = Inr tracks \<Longrightarrow> l < length tracks \<Longrightarrow> i \<in> set (tracks ! l) \<Longrightarrow>
   i \<in> set remaining"
proof (induction report U remaining arbitrary: tracks l rule: layers.induct)
  case (1 report U remaining)
  show ?case
  proof (cases "remaining = []")
    case True
    with 1(2,3) show ?thesis using layers_Nil by fastforce
  next
    case ne: False
    from layers_step [OF 1(2) ne] obtain rest where
      r: "ready U remaining \<noteq> []"
      and s: "layers report U (filter (\<lambda>i. i \<notin> set (ready U remaining)) remaining) = Inr rest"
      and t: "tracks = track_of U (ready U remaining) # rest" by blast
    show ?thesis
    proof (cases l)
      case 0
      with t 1(4) show ?thesis by (simp add: set_track_of ready_def)
    next
      case (Suc l')
      with t 1(3,4) have "l' < length rest" "i \<in> set (rest ! l')" by simp_all
      from 1(1) [OF ne r s this] show ?thesis by simp
    qed
  qed
qed

text \<open>
  An issue lies in one track only, so its layer is the index of the track that holds it.
\<close>

lemma layer_of_track:
  "layers report U remaining = Inr tracks \<Longrightarrow> l < length tracks \<Longrightarrow> i \<in> set (tracks ! l) \<Longrightarrow>
   layer_of tracks i = Some l"
proof (induction report U remaining arbitrary: tracks l rule: layers.induct)
  case (1 report U remaining)
  show ?case
  proof (cases "remaining = []")
    case True
    with 1(2,3) show ?thesis using layers_Nil by fastforce
  next
    case ne: False
    from layers_step [OF 1(2) ne] obtain rest where
      r: "ready U remaining \<noteq> []"
      and s: "layers report U (filter (\<lambda>i. i \<notin> set (ready U remaining)) remaining) = Inr rest"
      and t: "tracks = track_of U (ready U remaining) # rest" by blast
    show ?thesis
    proof (cases l)
      case 0
      with t 1(4) show ?thesis by simp
    next
      case (Suc l')
      with t 1(3,4) have l': "l' < length rest" "i \<in> set (rest ! l')" by simp_all
      from layers_within [OF s l'] have "i \<notin> set (ready U remaining)" by simp
      moreover from 1(1) [OF ne r s l'] have "layer_of rest i = Some l'" .
      ultimately show ?thesis using t Suc by (simp add: set_track_of)
    qed
  qed
qed

text \<open>Every remaining issue is placed in some track.\<close>

lemma layers_covers:
  "layers report U remaining = Inr tracks \<Longrightarrow> i \<in> set remaining \<Longrightarrow>
   \<exists>l. layer_of tracks i = Some l"
proof (induction report U remaining arbitrary: tracks rule: layers.induct)
  case (1 report U remaining)
  from 1(3) have ne: "remaining \<noteq> []" by auto
  from layers_step [OF 1(2) ne] obtain rest where
    r: "ready U remaining \<noteq> []"
    and l: "layers report U (filter (\<lambda>i. i \<notin> set (ready U remaining)) remaining) = Inr rest"
    and t: "tracks = track_of U (ready U remaining) # rest" by blast
  show ?case
  proof (cases "i \<in> set (ready U remaining)")
    case True
    with t show ?thesis by (simp add: set_track_of)
  next
    case False
    with 1(3) have "i \<in> set (filter (\<lambda>i. i \<notin> set (ready U remaining)) remaining)" by simp
    from 1(1) [OF ne r l this] obtain l' where "layer_of rest i = Some l'" by blast
    with t False show ?thesis by (simp add: set_track_of)
  qed
qed

text \<open>An open blocking dependency that is still remaining lands in a strictly earlier track.\<close>

lemma layers_order:
  "layers report U remaining = Inr tracks \<Longrightarrow> i \<in> set remaining \<Longrightarrow>
   d \<in> set (open_blockers U i) \<Longrightarrow> d \<in> set remaining \<Longrightarrow>
   \<exists>li ld. layer_of tracks i = Some li \<and> layer_of tracks d = Some ld \<and> ld < li"
proof (induction report U remaining arbitrary: tracks rule: layers.induct)
  case (1 report U remaining)
  from 1(3) have ne: "remaining \<noteq> []" by auto
  from layers_step [OF 1(2) ne] obtain rest where
    r: "ready U remaining \<noteq> []"
    and l: "layers report U (filter (\<lambda>i. i \<notin> set (ready U remaining)) remaining) = Inr rest"
    and t: "tracks = track_of U (ready U remaining) # rest" by blast
  let ?rem = "filter (\<lambda>i. i \<notin> set (ready U remaining)) remaining"
  from 1(4,5) have inr: "i \<notin> set (ready U remaining)" by (auto simp: ready_def)
  with 1(3) have i: "i \<in> set ?rem" by simp
  from layers_covers [OF l i] obtain li where li: "layer_of rest i = Some li" by blast
  show ?case
  proof (cases "d \<in> set (ready U remaining)")
    case True
    with t inr li show ?thesis by (simp add: set_track_of)
  next
    case False
    with 1(5) have "d \<in> set ?rem" by simp
    from 1(1) [OF ne r l i 1(4) this] obtain li' ld' where
      "layer_of rest i = Some li'" "layer_of rest d = Some ld'" "ld' < li'" by blast
    with t inr False show ?thesis by (simp add: set_track_of)
  qed
qed

lemma layers_zero:
  assumes "layers report U remaining = Inr tracks" "i \<in> set remaining"
    "\<forall>d \<in> set (open_blockers U i). d \<notin> set remaining"
  shows "layer_of tracks i = Some 0"
proof -
  from assms(2) have ne: "remaining \<noteq> []" by auto
  from layers_step [OF assms(1) ne] obtain rest where
    t: "tracks = track_of U (ready U remaining) # rest" by blast
  from assms(2,3) have "i \<in> set (ready U remaining)" by (simp add: ready_def)
  with t show ?thesis by (simp add: set_track_of)
qed

lemma open_blockers_iff:
  "d \<in> set (open_blockers U i) \<longleftrightarrow>
   (\<exists>x y. map_of U i = Some x \<and> \<lparr>DependsOnID = d, Kind = Blocks\<rparr> \<in> set (Dependencies x)
      \<and> map_of U d = Some y \<and> Status y \<noteq> Closed)"
proof
  assume "d \<in> set (open_blockers U i)"
  then have o: "is_open U d" and e: "d \<in> set (Edges U i)" by (simp_all add: open_blockers_def)
  from e obtain x where x: "map_of U i = Some x"
    and "d \<in> set (map DependsOnID (filter (\<lambda>e. Kind e = Blocks) (Dependencies x)))"
    by (cases "map_of U i") (simp_all add: Edges_def)
  then obtain e where m: "e \<in> set (Dependencies x)" and k: "Kind e = Blocks" "DependsOnID e = d"
    by auto
  have "e = \<lparr>DependsOnID = DependsOnID e, Kind = Kind e\<rparr>" by simp
  with k have "e = \<lparr>DependsOnID = d, Kind = Blocks\<rparr>" by simp
  with m have "\<lparr>DependsOnID = d, Kind = Blocks\<rparr> \<in> set (Dependencies x)" by simp
  moreover from o obtain y where "map_of U d = Some y" "Status y \<noteq> Closed"
    by (auto simp: is_open_def split: option.splits)
  ultimately show "\<exists>x y. map_of U i = Some x
      \<and> \<lparr>DependsOnID = d, Kind = Blocks\<rparr> \<in> set (Dependencies x)
      \<and> map_of U d = Some y \<and> Status y \<noteq> Closed" using x by blast
next
  assume "\<exists>x y. map_of U i = Some x \<and> \<lparr>DependsOnID = d, Kind = Blocks\<rparr> \<in> set (Dependencies x)
      \<and> map_of U d = Some y \<and> Status y \<noteq> Closed"
  then obtain x y where x: "map_of U i = Some x"
    and e: "\<lparr>DependsOnID = d, Kind = Blocks\<rparr> \<in> set (Dependencies x)"
    and y: "map_of U d = Some y" "Status y \<noteq> Closed" by blast
  from e have "DependsOnID \<lparr>DependsOnID = d, Kind = Blocks\<rparr>
      \<in> DependsOnID ` {e \<in> set (Dependencies x). Kind e = Blocks}" by (intro imageI) simp
  with x have "d \<in> set (Edges U i)" by (simp add: Edges_def)
  moreover from y have "is_open U d" by (simp add: is_open_def)
  ultimately show "d \<in> set (open_blockers U i)" by (simp add: open_blockers_def)
qed

lemma in_universe: "map_of U i = Some x \<Longrightarrow> i \<in> set (map fst U)"
  by (metis map_of_SomeD set_zip_leftD zip_map_fst_snd)

text \<open>
  C3: in every Plan of the Layering Engine, an issue with an open blocking dependency
  (a blocks edge to an issue of the universe that is not closed) lies in a strictly
  later layer than that dependency, and an issue all of whose blocks edges point to
  closed issues or to dangling references lies in layer 0; in the universe of
  Scenario C the plan is the track of \<^verbatim>\<open>api-API-1\<close> followed by the track of
  \<^verbatim>\<open>web-WEB-1\<close>.
\<close>

theorem layering_respects_open_blockers:
  "(\<forall>plan i x d y.
       LayeringEngine report U = Inr plan \<and> map_of U i = Some x
       \<and> \<lparr>DependsOnID = d, Kind = Blocks\<rparr> \<in> set (Dependencies x)
       \<and> map_of U d = Some y \<and> Status y \<noteq> Closed
       \<longrightarrow> (\<exists>li ld. layer_of plan i = Some li \<and> layer_of plan d = Some ld \<and> ld < li))
   \<and> (\<forall>plan i x.
       LayeringEngine report U = Inr plan \<and> map_of U i = Some x
       \<and> (\<forall>e \<in> set (Dependencies x). Kind e = Blocks \<longrightarrow>
             (case map_of U (DependsOnID e) of None \<Rightarrow> True | Some y \<Rightarrow> Status y = Closed))
       \<longrightarrow> layer_of plan i = Some 0)
   \<and> LayeringEngine report scenario_C = Inr [[''api-API-1''], [''web-WEB-1'']]"
proof (intro conjI allI impI)
  fix plan i x d y
  assume a: "LayeringEngine report U = Inr plan \<and> map_of U i = Some x
       \<and> \<lparr>DependsOnID = d, Kind = Blocks\<rparr> \<in> set (Dependencies x)
       \<and> map_of U d = Some y \<and> Status y \<noteq> Closed"
  then have b: "d \<in> set (open_blockers U i)" unfolding open_blockers_iff by blast
  from a have "i \<in> set (map fst U)" "d \<in> set (map fst U)" by (blast intro: in_universe)+
  with a b show "\<exists>li ld. layer_of plan i = Some li \<and> layer_of plan d = Some ld \<and> ld < li"
    unfolding LayeringEngine_def using layers_order by blast
next
  fix plan i x
  assume a: "LayeringEngine report U = Inr plan \<and> map_of U i = Some x
       \<and> (\<forall>e \<in> set (Dependencies x). Kind e = Blocks \<longrightarrow>
             (case map_of U (DependsOnID e) of None \<Rightarrow> True | Some y \<Rightarrow> Status y = Closed))"
  have "d \<notin> set (open_blockers U i)" for d
  proof
    assume "d \<in> set (open_blockers U i)"
    then obtain x' y where "map_of U i = Some x'"
      "\<lparr>DependsOnID = d, Kind = Blocks\<rparr> \<in> set (Dependencies x')"
      "map_of U d = Some y" "Status y \<noteq> Closed" unfolding open_blockers_iff by blast
    with a show False by force
  qed
  then have none: "\<forall>d \<in> set (open_blockers U i). d \<notin> set (map fst U)" by blast
  from a have i: "i \<in> set (map fst U)" by (blast intro: in_universe)
  from a have "layers report U (map fst U) = Inr plan" by (simp add: LayeringEngine_def)
  then show "layer_of plan i = Some 0" using i none by (rule layers_zero)
next
  show "LayeringEngine report scenario_C = Inr [[''api-API-1''], [''web-WEB-1'']]"
    by code_simp
qed

text \<open>
  In the universe of Scenario C, \<^verbatim>\<open>web-WEB-1\<close> lies in a later layer than \<^verbatim>\<open>api-API-1\<close>,
  which lies in layer 0.
\<close>

theorem layering_respects_open_blockers_witness:
  "LayeringEngine (\<lambda>U remaining. remaining) scenario_C = Inr [[''api-API-1''], [''web-WEB-1'']]
   \<and> (\<exists>li ld. layer_of [[''api-API-1''], [''web-WEB-1'']] ''web-WEB-1'' = Some li
        \<and> layer_of [[''api-API-1''], [''web-WEB-1'']] ''api-API-1'' = Some ld \<and> ld < li)
   \<and> layer_of [[''api-API-1''], [''web-WEB-1'']] ''api-API-1'' = Some 0"
proof -
  let ?api = "\<lparr>ID = ''api-API-1'', Title = ''API Endpoint'', Status = Open, Priority = 1,
          IssueType = Task, Dependencies = []\<rparr>"
  let ?web = "\<lparr>ID = ''web-WEB-1'', Title = ''Web Dashboard'', Status = Open, Priority = 1,
          IssueType = Task,
          Dependencies = [\<lparr>DependsOnID = ''api-API-1'', Kind = Blocks\<rparr>]\<rparr>"
  let ?plan = "[[''api-API-1''], [''web-WEB-1'']]"
  note inst = layering_respects_open_blockers [of "\<lambda>U remaining. remaining" scenario_C]
  from inst have p: "LayeringEngine (\<lambda>U remaining. remaining) scenario_C = Inr ?plan" by blast
  have api: "map_of scenario_C ''api-API-1'' = Some ?api"
    and web: "map_of scenario_C ''web-WEB-1'' = Some ?web"
    by (simp_all add: scenario_C_def)
  have "LayeringEngine (\<lambda>U remaining. remaining) scenario_C = Inr ?plan
      \<and> map_of scenario_C ''web-WEB-1'' = Some ?web
      \<and> \<lparr>DependsOnID = ''api-API-1'', Kind = Blocks\<rparr> \<in> set (Dependencies ?web)
      \<and> map_of scenario_C ''api-API-1'' = Some ?api \<and> Status ?api \<noteq> Closed"
    using p api web by simp
  with inst have later: "\<exists>li ld. layer_of ?plan ''web-WEB-1'' = Some li
      \<and> layer_of ?plan ''api-API-1'' = Some ld \<and> ld < li" by blast
  have "LayeringEngine (\<lambda>U remaining. remaining) scenario_C = Inr ?plan
      \<and> map_of scenario_C ''api-API-1'' = Some ?api
      \<and> (\<forall>e \<in> set (Dependencies ?api). Kind e = Blocks \<longrightarrow>
            (case map_of scenario_C (DependsOnID e) of None \<Rightarrow> True | Some y \<Rightarrow> Status y = Closed))"
    using p api by simp
  with inst have zero: "layer_of ?plan ''api-API-1'' = Some 0" by blast
  from p later zero show ?thesis by blast
qed


end
